theory Spec2Isabelle
  imports Main "HOL-Library.Word"
begin

unbundle bit_operations_syntax

section \<open>Machine types\<close>

text \<open>
  \<open>std::uint32_t\<close> (the \<open>Element\<close> of a \<open>BitArray\<close>) and \<open>std::bitset<32>\<close> are
  32-bit words. \<open>int32_t\<close> is a 32-bit word read through \<open>sint\<close>. The C++ \<open>int\<close> in which
  the masks of \<open>BitArray::any\<close> are computed is 32 bits wide as well; its arithmetic is taken
  as two's complement wrap-around, which is what the conversion to \<open>Element\<close> observes.
  \<open>size_t\<close> values (bit indices, word indices, widths) are natural numbers: every width
  the hub instantiates is far below the point where \<open>size_t\<close> arithmetic would wrap.
\<close>

type_synonym uint32_t = "32 word"
type_synonym int32_t = "32 word"

section \<open>Raw events and axis information\<close>

text \<open>
  \<open>struct RawEvent\<close>. The fields are prefixed with \<open>ev_\<close>, since \<open>type\<close>, \<open>value\<close> and
  \<open>when\<close> are not available as field names here. \<open>nsecs_t\<close> is a 64-bit integer.
\<close>

record RawEvent =
  ev_when :: "64 word"
  ev_deviceId :: int32_t
  ev_type :: int32_t
  ev_code :: int32_t
  ev_value :: int32_t

text \<open>\<open>struct RawAbsoluteAxisInfo\<close> and its \<open>inline void clear()\<close>.\<close>

record RawAbsoluteAxisInfo =
  valid :: bool
  minValue :: int32_t
  maxValue :: int32_t
  flat :: int32_t
  fuzz :: int32_t
  resolution :: int32_t

definition clear :: "RawAbsoluteAxisInfo \<Rightarrow> RawAbsoluteAxisInfo" where
  "clear info = info\<lparr>valid := False, minValue := 0, maxValue := 0, flat := 0, fuzz := 0,
     resolution := 0\<rparr>"

section \<open>Input device classes\<close>

text \<open>\<open>enum class InputDeviceClass : uint32_t\<close> and the value of each enumerator.\<close>

datatype InputDeviceClass =
  KEYBOARD | ALPHAKEY | TOUCH | CURSOR | TOUCH_MT | DPAD | GAMEPAD | SWITCH | JOYSTICK
  | VIBRATOR | MIC | EXTERNAL_STYLUS | ROTARY_ENCODER | VIRTUAL | EXTERNAL

fun InputDeviceClass_value :: "InputDeviceClass \<Rightarrow> uint32_t" where
  "InputDeviceClass_value KEYBOARD = 0x00000001"
| "InputDeviceClass_value ALPHAKEY = 0x00000002"
| "InputDeviceClass_value TOUCH = 0x00000004"
| "InputDeviceClass_value CURSOR = 0x00000008"
| "InputDeviceClass_value TOUCH_MT = 0x00000010"
| "InputDeviceClass_value DPAD = 0x00000020"
| "InputDeviceClass_value GAMEPAD = 0x00000040"
| "InputDeviceClass_value SWITCH = 0x00000080"
| "InputDeviceClass_value JOYSTICK = 0x00000100"
| "InputDeviceClass_value VIBRATOR = 0x00000200"
| "InputDeviceClass_value MIC = 0x00000400"
| "InputDeviceClass_value EXTERNAL_STYLUS = 0x00000800"
| "InputDeviceClass_value ROTARY_ENCODER = 0x00001000"
| "InputDeviceClass_value VIRTUAL = 0x40000000"
| "InputDeviceClass_value EXTERNAL = 0x80000000"

text \<open>
  Modelled from the spec: \<open>Flags<InputDeviceClass>\<close> is declared in \<open>input/Flags.h\<close>, which
  is not among the sources. The spec describes a device's classes as a set of additive
  capabilities; the set is held in one \<open>uint32_t\<close>, a class is added by OR-ing its
  enumerator into the word and tested by masking the word with its enumerator.
\<close>

definition Flags_or :: "uint32_t \<Rightarrow> InputDeviceClass \<Rightarrow> uint32_t" where
  "Flags_or f c = f OR InputDeviceClass_value c"

definition Flags_test :: "uint32_t \<Rightarrow> InputDeviceClass \<Rightarrow> bool" where
  "Flags_test f c = (InputDeviceClass_value c AND f = InputDeviceClass_value c)"

definition Flags_of :: "InputDeviceClass list \<Rightarrow> uint32_t" where
  "Flags_of cs = foldl Flags_or 0 cs"

text \<open>The position of the one bit of each enumerator (used in the proofs only).\<close>

fun class_bit :: "InputDeviceClass \<Rightarrow> nat" where
  "class_bit KEYBOARD = 0"
| "class_bit ALPHAKEY = 1"
| "class_bit TOUCH = 2"
| "class_bit CURSOR = 3"
| "class_bit TOUCH_MT = 4"
| "class_bit DPAD = 5"
| "class_bit GAMEPAD = 6"
| "class_bit SWITCH = 7"
| "class_bit JOYSTICK = 8"
| "class_bit VIBRATOR = 9"
| "class_bit MIC = 10"
| "class_bit EXTERNAL_STYLUS = 11"
| "class_bit ROTARY_ENCODER = 12"
| "class_bit VIRTUAL = 30"
| "class_bit EXTERNAL = 31"

section \<open>Synthetic event types and reserved device ids\<close>

text \<open>The anonymous enum of \<open>EventHubInterface\<close>.\<close>

definition DEVICE_ADDED :: int where
  "DEVICE_ADDED = 0x10000000"

definition DEVICE_REMOVED :: int where
  "DEVICE_REMOVED = 0x20000000"

definition FINISHED_DEVICE_SCAN :: int where
  "FINISHED_DEVICE_SCAN = 0x30000000"

definition FIRST_SYNTHETIC_EVENT :: int where
  "FIRST_SYNTHETIC_EVENT = DEVICE_ADDED"

text \<open>
  Modelled from the spec: the type of a kernel event. The spec calls the \<open>{type, code}\<close>
  pair of such an event an evdev tuple; its declaration, \<open>struct input_event\<close> of
  \<open>linux/input.h\<close>, is not among the sources. There the type is a 16-bit unsigned
  value (\<open>__u16\<close>), and it reaches the \<open>int32_t\<close> field of a \<open>RawEvent\<close> by the
  value-preserving integral conversion. Every valid type code (at most \<open>EV_MAX\<close>) is such
  a value.
\<close>

definition evdev_type :: "16 word \<Rightarrow> int32_t" where
  "evdev_type t = ucast t"

text \<open>
  The anonymous enum of \<open>EventHub\<close>, and the id of the virtual keyboard that its comment
  names (\<open>-1\<close>; the constant itself lives in \<open>input/InputDevice.h\<close>).
\<close>

definition NO_BUILT_IN_KEYBOARD :: int where
  "NO_BUILT_IN_KEYBOARD = - 2"

definition VIRTUAL_KEYBOARD_ID :: int where
  "VIRTUAL_KEYBOARD_ID = - 1"

section \<open>BitArray\<close>

text \<open>
  \<open>template <std::size_t BITS> class BitArray\<close> with its one member
  \<open>std::array<std::bitset<WIDTH>, COUNT> mData\<close>. The template parameter is a field of the
  record; the array is a list, whose length the C++ type fixes to \<open>COUNT\<close>
  (\<open>BitArray_wf\<close>).
\<close>

definition WIDTH :: nat where
  "WIDTH = 4 * 8"

definition COUNT :: "nat \<Rightarrow> nat" where
  "COUNT bits = (bits + WIDTH - 1) div WIDTH"

record BitArray =
  BITS :: nat
  mData :: "uint32_t list"

definition BitArray_wf :: "BitArray \<Rightarrow> bool" where
  "BitArray_wf a = (length (mData a) = COUNT (BITS a))"

text \<open>
  \<open>std::array::operator[]\<close> does not check its index; reading at or past the end is
  undefined behaviour. The model makes that read a value of its own.
\<close>

datatype fault = OutOfBounds nat

definition at :: "uint32_t list \<Rightarrow> nat \<Rightarrow> fault + uint32_t" where
  "at xs i = (if i < length xs then Inr (xs ! i) else Inl (OutOfBounds i))"

text \<open>\<open>inline bool test(size_t bit) const\<close>\<close>

definition test :: "BitArray \<Rightarrow> nat \<Rightarrow> fault + bool" where
  "test a bit' =
     (if bit' < BITS a then
        (case at (mData a) (bit' div WIDTH) of
           Inl e \<Rightarrow> Inl e
         | Inr w \<Rightarrow> Inr (bit w (bit' mod WIDTH)))
      else Inr False)"

text \<open>\<open>inline size_t bytes()\<close>\<close>

definition bytes :: "BitArray \<Rightarrow> nat" where
  "bytes a = (BITS a + 8 - 1) div 8"

text \<open>
  \<open>bool any(size_t startIndex, size_t endIndex)\<close>. The call either takes the range-check
  branch (\<open>ALOGE\<close> and \<open>return false\<close>), or returns a boolean after reading words.
\<close>

datatype any_outcome = InvalidIndex | Returned bool

fun any_value :: "any_outcome \<Rightarrow> bool" where
  "any_value InvalidIndex = False"
| "any_value (Returned b) = b"

text \<open>
  The loop \<open>for (; se < ee; se++) if (mData[se].any()) return true;\<close>. It yields
  \<open>Inr None\<close> when it returned true, and \<open>Inr (Some se)\<close> with the final value of
  \<open>se\<close> when it fell through.
\<close>

function any_whole :: "uint32_t list \<Rightarrow> nat \<Rightarrow> nat \<Rightarrow> fault + nat option" where
  "any_whole d se ee =
     (if se < ee then
        (case at d se of
           Inl e \<Rightarrow> Inl e
         | Inr w \<Rightarrow> if w \<noteq> 0 then Inr None else any_whole d (se + 1) ee)
      else Inr (Some se))"
  by pat_completeness auto
termination
  by (relation "measure (\<lambda>(d, se, ee). ee - se)") auto

declare any_whole.simps [simp del]

text \<open>The last, unaligned word: \<open>if (ei > 0 && se <= ee) { ... }\<close> and \<open>return false\<close>.\<close>

definition any_last :: "uint32_t list \<Rightarrow> nat \<Rightarrow> nat \<Rightarrow> nat \<Rightarrow> fault + any_outcome" where
  "any_last d se ee ei =
     (if ei > 0 \<and> se \<le> ee then
        (let mask = (push_bit ei 1 - 1 :: uint32_t) in
         case at d se of
           Inl e \<Rightarrow> Inl e
         | Inr w \<Rightarrow> if w AND mask \<noteq> 0 then Inr (Returned True) else Inr (Returned False))
      else Inr (Returned False))"

text \<open>The whole words and then the last one, from the current \<open>se\<close>.\<close>

definition any_rest :: "uint32_t list \<Rightarrow> nat \<Rightarrow> nat \<Rightarrow> nat \<Rightarrow> fault + any_outcome" where
  "any_rest d se ee ei =
     (case any_whole d se ee of
        Inl e \<Rightarrow> Inl e
      | Inr None \<Rightarrow> Inr (Returned True)
      | Inr (Some se') \<Rightarrow> any_last d se' ee ei)"

definition any :: "BitArray \<Rightarrow> nat \<Rightarrow> nat \<Rightarrow> fault + any_outcome" where
  "any a startIndex endIndex =
     (if startIndex \<ge> endIndex \<or> startIndex > BITS a \<or> endIndex > BITS a + 1 then
        Inr InvalidIndex
      else
        (let se = startIndex div WIDTH;
             ee = endIndex div WIDTH;
             si = startIndex mod WIDTH;
             ei = endIndex mod WIDTH
         in if si > 0 then
              (let nBits = (if se = ee then ei - si else WIDTH - si);
                   mask = (push_bit si (push_bit nBits 1 - 1) :: uint32_t)
               in case at (mData a) se of
                    Inl e \<Rightarrow> Inl e
                  | Inr w \<Rightarrow>
                      if w AND mask \<noteq> 0 then Inr (Returned True)
                      else any_rest (mData a) (se + 1) ee ei)
            else any_rest (mData a) se ee ei))"

text \<open>
  \<open>void loadFromBuffer(const Buffer& buffer)\<close>, with \<open>Buffer = std::array<Element, COUNT>\<close>.
  \<open>std::bitset<WIDTH>(buffer[i])\<close> holds exactly the 32 bits of the element. The loop
  reads \<open>buffer[i]\<close> and writes \<open>mData[i]\<close> for every \<open>i < COUNT\<close>; both accesses are
  unchecked in C++ and checked here.
\<close>

function loadFromBuffer_loop ::
  "nat \<Rightarrow> nat \<Rightarrow> uint32_t list \<Rightarrow> uint32_t list \<Rightarrow> fault + uint32_t list" where
  "loadFromBuffer_loop i n buffer d =
     (if i < n then
        (case at buffer i of
           Inl e \<Rightarrow> Inl e
         | Inr v \<Rightarrow>
             if i < length d then loadFromBuffer_loop (i + 1) n buffer (d[i := v])
             else Inl (OutOfBounds i))
      else Inr d)"
  by pat_completeness auto
termination
  by (relation "measure (\<lambda>(i, n, buffer, d). n - i)") auto

declare loadFromBuffer_loop.simps [simp del]

definition loadFromBuffer :: "BitArray \<Rightarrow> uint32_t list \<Rightarrow> fault + BitArray" where
  "loadFromBuffer a buffer =
     (case loadFromBuffer_loop 0 (COUNT (BITS a)) buffer (mData a) of
        Inl e \<Rightarrow> Inl e
      | Inr d \<Rightarrow> Inr (a\<lparr>mData := d\<rparr>))"

text \<open>
  The bit with index \<open>i\<close> of a word array: bit \<open>i mod 32\<close> of word \<open>i div 32\<close> (used in
  the proofs only).
\<close>

definition bitAt :: "uint32_t list \<Rightarrow> nat \<Rightarrow> bool" where
  "bitAt d i = bit (d ! (i div 32)) (i mod 32)"

section \<open>Bits of a word and bits of the array\<close>

lemma bit_lt_32: "bit (w :: 32 word) k \<Longrightarrow> k < 32"
  using bit_imp_le_length [of w k] by simp

lemma word_neq_0_iff_bit: "(w :: 32 word) \<noteq> 0 \<longleftrightarrow> (\<exists>k. bit w k)"
proof
  assume "w \<noteq> 0"
  then show "\<exists>k. bit w k" by (auto simp: bit_eq_iff)
next
  assume "\<exists>k. bit w k"
  then show "w \<noteq> 0" by auto
qed

lemma and_mask_range:
  fixes w :: "32 word"
  assumes "si + n \<le> 32"
  shows "w AND push_bit si (push_bit n 1 - 1) \<noteq> 0 \<longleftrightarrow> (\<exists>k. si \<le> k \<and> k < si + n \<and> bit w k)"
proof -
  have m: "(push_bit n 1 - 1 :: 32 word) = mask n"
    by (simp add: mask_eq_exp_minus_1)
  have b: "bit (w AND push_bit si (mask n)) k \<longleftrightarrow> si \<le> k \<and> k < si + n \<and> bit w k" for k
    using assms by (auto simp: bit_simps dest: bit_imp_le_length)
  show ?thesis unfolding m
  proof -
    have "(\<exists>k. bit (w AND push_bit si (mask n)) k) \<longleftrightarrow> (\<exists>k. si \<le> k \<and> k < si + n \<and> bit w k)"
      by (simp add: b)
    then show "w AND push_bit si (mask n) \<noteq> 0 \<longleftrightarrow> (\<exists>k. si \<le> k \<and> k < si + n \<and> bit w k)"
      by (simp only: word_neq_0_iff_bit)
  qed
qed

lemma and_low_mask_range:
  fixes w :: "32 word"
  assumes "n \<le> 32"
  shows "w AND (push_bit n 1 - 1) \<noteq> 0 \<longleftrightarrow> (\<exists>k. k < n \<and> bit w k)"
  using and_mask_range [of 0 n w] assms by simp

lemma word_range_bitAt:
  assumes "b \<le> 32"
  shows "(\<exists>k. a \<le> k \<and> k < b \<and> bit (d ! j) k) \<longleftrightarrow> (\<exists>i. j * 32 + a \<le> i \<and> i < j * 32 + b \<and> bitAt d i)"
proof
  assume "\<exists>k. a \<le> k \<and> k < b \<and> bit (d ! j) k"
  then obtain k where k: "a \<le> k" "k < b" "bit (d ! j) k" by blast
  with assms have "(j * 32 + k) div 32 = j" "(j * 32 + k) mod 32 = k" by auto
  with k show "\<exists>i. j * 32 + a \<le> i \<and> i < j * 32 + b \<and> bitAt d i"
    by (intro exI [of _ "j * 32 + k"]) (simp add: bitAt_def)
next
  assume "\<exists>i. j * 32 + a \<le> i \<and> i < j * 32 + b \<and> bitAt d i"
  then obtain i where i: "j * 32 + a \<le> i" "i < j * 32 + b" "bitAt d i" by blast
  with assms have "i div 32 = j" by (auto simp: div_nat_eqI)
  moreover from this have "i mod 32 = i - j * 32" by (simp add: modulo_nat_def)
  ultimately show "\<exists>k. a \<le> k \<and> k < b \<and> bit (d ! j) k"
    using i by (intro exI [of _ "i - j * 32"]) (auto simp: bitAt_def)
qed

lemma any_whole_correct:
  assumes "ee \<le> length d"
  shows "any_whole d se ee =
    (if \<exists>j. se \<le> j \<and> j < ee \<and> d ! j \<noteq> 0 then Inr None else Inr (Some (max se ee)))"
  using assms
proof (induction d se ee rule: any_whole.induct)
  case (1 d se ee)
  show ?case
  proof (cases "se < ee")
    case False
    then show ?thesis by (subst any_whole.simps) (auto simp: max_def)
  next
    case True
    with 1 have a: "at d se = Inr (d ! se)" by (simp add: at_def)
    show ?thesis
    proof (cases "d ! se = 0")
      case nz: False
      with True a show ?thesis by (subst any_whole.simps) auto
    next
      case z: True
      have "any_whole d se ee = any_whole d (se + 1) ee"
        using True a z by (subst any_whole.simps) simp
      also have "\<dots> = (if \<exists>j. se + 1 \<le> j \<and> j < ee \<and> d ! j \<noteq> 0 then Inr None else Inr (Some (max (se + 1) ee)))"
        using "1.IH" [OF True a] z "1.prems" by simp
      also have "(\<exists>j. se + 1 \<le> j \<and> j < ee \<and> d ! j \<noteq> 0) \<longleftrightarrow> (\<exists>j. se \<le> j \<and> j < ee \<and> d ! j \<noteq> 0)"
        using z by (metis Suc_eq_plus1 Suc_leI le_neq_implies_less Suc_leD)
      also have "max (se + 1) ee = max se ee" using True by simp
      finally show ?thesis .
    qed
  qed
qed

lemma whole_words_bitAt:
  "(\<exists>j. se \<le> j \<and> j < ee \<and> d ! j \<noteq> 0) \<longleftrightarrow> (\<exists>i. se * 32 \<le> i \<and> i < ee * 32 \<and> bitAt d i)"
proof -
  have w: "d ! j \<noteq> 0 \<longleftrightarrow> (\<exists>i. j * 32 \<le> i \<and> i < j * 32 + 32 \<and> bitAt d i)" for j
  proof -
    have "d ! j \<noteq> 0 \<longleftrightarrow> (\<exists>k. 0 \<le> k \<and> k < 32 \<and> bit (d ! j) k)"
      unfolding word_neq_0_iff_bit using bit_lt_32 by blast
    also have "\<dots> \<longleftrightarrow> (\<exists>i. j * 32 + 0 \<le> i \<and> i < j * 32 + 32 \<and> bitAt d i)"
      by (rule word_range_bitAt) simp
    finally show ?thesis by simp
  qed
  show ?thesis
  proof
    assume "\<exists>j. se \<le> j \<and> j < ee \<and> d ! j \<noteq> 0"
    then obtain j i where "se \<le> j" "j < ee" "j * 32 \<le> i" "i < j * 32 + 32" "bitAt d i"
      unfolding w by blast
    moreover from this have "se * 32 \<le> i" "i < ee * 32" by auto
    ultimately show "\<exists>i. se * 32 \<le> i \<and> i < ee * 32 \<and> bitAt d i" by blast
  next
    assume "\<exists>i. se * 32 \<le> i \<and> i < ee * 32 \<and> bitAt d i"
    then obtain i where i: "se * 32 \<le> i" "i < ee * 32" "bitAt d i" by blast
    then have "se \<le> i div 32" "i div 32 < ee" by auto
    moreover have "i div 32 * 32 \<le> i" "i < i div 32 * 32 + 32" 
      by presburger+
    ultimately show "\<exists>j. se \<le> j \<and> j < ee \<and> d ! j \<noteq> 0"
      unfolding w using i(3) by blast
  qed
qed

lemma any_last_correct:
  assumes "ei < 32" and "ei > 0 \<Longrightarrow> ee < length d"
  shows "any_last d ee ee ei = Inr (Returned (\<exists>i. ee * 32 \<le> i \<and> i < ee * 32 + ei \<and> bitAt d i))"
proof (cases "ei > 0")
  case False
  then show ?thesis by (simp add: any_last_def)
next
  case True
  with assms have a: "at d ee = Inr (d ! ee)" by (simp add: at_def)
  have "d ! ee AND (push_bit ei 1 - 1) \<noteq> 0 \<longleftrightarrow> (\<exists>k. 0 \<le> k \<and> k < ei \<and> bit (d ! ee) k)"
    using and_low_mask_range [of ei "d ! ee"] assms(1) by simp
  also have "\<dots> \<longleftrightarrow> (\<exists>i. ee * 32 + 0 \<le> i \<and> i < ee * 32 + ei \<and> bitAt d i)"
    by (rule word_range_bitAt) (use assms(1) in simp)
  finally show ?thesis using True a by (simp add: any_last_def)
qed

lemma any_rest_correct:
  assumes "se \<le> ee" "ei < 32" "ee \<le> length d" "ei > 0 \<Longrightarrow> ee < length d"
  shows "any_rest d se ee ei = Inr (Returned (\<exists>i. se * 32 \<le> i \<and> i < ee * 32 + ei \<and> bitAt d i))"
proof (cases "\<exists>i. se * 32 \<le> i \<and> i < ee * 32 \<and> bitAt d i")
  case True
  then have "any_whole d se ee = Inr None"
    using assms(3) by (simp add: any_whole_correct whole_words_bitAt)
  moreover from True have "\<exists>i. se * 32 \<le> i \<and> i < ee * 32 + ei \<and> bitAt d i"
    by (meson trans_less_add1)
  ultimately show ?thesis by (simp add: any_rest_def)
next
  case False
  then have "any_whole d se ee = Inr (Some ee)"
    using assms(1,3) by (simp add: any_whole_correct whole_words_bitAt max_def)
  then have "any_rest d se ee ei = any_last d ee ee ei" by (simp add: any_rest_def)
  also have "\<dots> = Inr (Returned (\<exists>i. ee * 32 \<le> i \<and> i < ee * 32 + ei \<and> bitAt d i))"
    using assms by (intro any_last_correct)
  also have "(\<exists>i. ee * 32 \<le> i \<and> i < ee * 32 + ei \<and> bitAt d i)
      \<longleftrightarrow> (\<exists>i. se * 32 \<le> i \<and> i < ee * 32 + ei \<and> bitAt d i)"
    using False assms(1) by (metis mult_le_mono1 le_trans not_le_imp_less)
  finally show ?thesis .
qed

lemma any_rest_past:
  assumes "ee < se" "ee \<le> length d"
  shows "any_rest d se ee ei = Inr (Returned False)"
  using assms by (simp add: any_rest_def any_whole_correct any_last_def max_def)

lemma ex_range_split:
  fixes lo m hi :: nat
  assumes "lo \<le> m" "m \<le> hi"
  shows "(\<exists>i. lo \<le> i \<and> i < hi \<and> P i)
     \<longleftrightarrow> (\<exists>i. lo \<le> i \<and> i < m \<and> P i) \<or> (\<exists>i. m \<le> i \<and> i < hi \<and> P i)"
proof
  assume "\<exists>i. lo \<le> i \<and> i < hi \<and> P i"
  then obtain i where i: "lo \<le> i" "i < hi" "P i" by blast
  show "(\<exists>i. lo \<le> i \<and> i < m \<and> P i) \<or> (\<exists>i. m \<le> i \<and> i < hi \<and> P i)"
  proof (cases "i < m")
    case True
    with i show ?thesis by blast
  next
    case False
    then have "m \<le> i" by simp
    with i show ?thesis by blast
  qed
next
  assume "(\<exists>i. lo \<le> i \<and> i < m \<and> P i) \<or> (\<exists>i. m \<le> i \<and> i < hi \<and> P i)"
  then show "\<exists>i. lo \<le> i \<and> i < hi \<and> P i"
  proof
    assume "\<exists>i. lo \<le> i \<and> i < m \<and> P i"
    then obtain i where "lo \<le> i" "i < m" "P i" by blast
    with assms(2) have "lo \<le> i \<and> i < hi \<and> P i" by simp
    then show ?thesis ..
  next
    assume "\<exists>i. m \<le> i \<and> i < hi \<and> P i"
    then obtain i where "m \<le> i" "i < hi" "P i" by blast
    with assms(1) have "lo \<le> i \<and> i < hi \<and> P i" by simp
    then show ?thesis ..
  qed
qed

lemma COUNT_covers: "bits \<le> COUNT bits * 32"
  unfolding COUNT_def WIDTH_def by presburger

lemma test_bitAt:
  assumes "BitArray_wf a" "i < BITS a"
  shows "test a i = Inr (bitAt (mData a) i)"
proof -
  have "i < length (mData a) * 32"
    using assms COUNT_covers [of "BITS a"] by (simp add: BitArray_wf_def)
  then have "i div 32 < length (mData a)" by auto
  then show ?thesis using assms(2) by (simp add: test_def at_def bitAt_def WIDTH_def)
qed

section \<open>What any computes\<close>

text \<open>
  Whenever the call passes the range check and the range ends within the words the
  array has, \<open>any\<close> reads in bounds and returns whether some bit of the range is set.
\<close>

lemma any_bitAt:
  assumes lt: "lo < hi" and le: "lo \<le> BITS a" "hi \<le> BITS a + 1"
    and len: "hi \<le> length (mData a) * 32"
  shows "any a lo hi = Inr (Returned (\<exists>i. lo \<le> i \<and> i < hi \<and> bitAt (mData a) i))"
proof -
  define d where "d = mData a"
  define se ee si ei where "se = lo div 32" and "ee = hi div 32" and "si = lo mod 32" and "ei = hi mod 32"
  have lo: "lo = se * 32 + si" and hi: "hi = ee * 32 + ei"
    by (simp_all add: se_def ee_def si_def ei_def)
  have si32: "si < 32" and ei32: "ei < 32" by (simp_all add: si_def ei_def)
  have len: "hi \<le> length d * 32"
    using len by (simp add: d_def)
  have see: "se \<le> ee" using lt by (simp add: se_def ee_def div_le_mono)
  have eelen: "ee \<le> length d" using len hi by auto
  have eilen: "ee < length d" if "ei > 0" using len hi that by auto
  have selen: "se < length d" using len lt lo by auto
  then have atse: "at d se = Inr (d ! se)" by (simp add: at_def)
  have unfold: "any a lo hi =
      (if si > 0 then
         (if d ! se AND push_bit si (push_bit (if se = ee then ei - si else 32 - si) 1 - 1) \<noteq> 0
          then Inr (Returned True) else any_rest d (se + 1) ee ei)
       else any_rest d se ee ei)"
    using lt le atse
    by (simp add: any_def Let_def WIDTH_def d_def se_def ee_def si_def ei_def)
  show ?thesis
  proof (cases "si > 0")
    case False
    then have "any a lo hi = any_rest d se ee ei" by (simp add: unfold)
    also have "\<dots> = Inr (Returned (\<exists>i. se * 32 \<le> i \<and> i < ee * 32 + ei \<and> bitAt d i))"
      using see ei32 eelen eilen by (rule any_rest_correct)
    finally show ?thesis using False by (simp add: lo hi d_def)
  next
    case si: True
    show ?thesis
    proof (cases "se = ee")
      case same: True
      then have sei: "si < ei" using lt lo hi by simp
      have first: "d ! se AND push_bit si (push_bit (ei - si) 1 - 1) \<noteq> 0
          \<longleftrightarrow> (\<exists>i. lo \<le> i \<and> i < hi \<and> bitAt d i)"
      proof -
        have "d ! se AND push_bit si (push_bit (ei - si) 1 - 1) \<noteq> 0
            \<longleftrightarrow> (\<exists>k. si \<le> k \<and> k < si + (ei - si) \<and> bit (d ! se) k)"
          by (rule and_mask_range) (use sei ei32 in simp)
        also have "\<dots> \<longleftrightarrow> (\<exists>k. si \<le> k \<and> k < ei \<and> bit (d ! se) k)"
          using sei by simp
        also have "\<dots> \<longleftrightarrow> (\<exists>i. se * 32 + si \<le> i \<and> i < se * 32 + ei \<and> bitAt d i)"
          by (rule word_range_bitAt) (use ei32 in simp)
        finally show ?thesis using same by (simp add: lo hi)
      qed
      have "any_rest d (se + 1) ee ei = Inr (Returned False)"
        using same eelen by (intro any_rest_past) simp_all
      then show ?thesis using si same first by (simp add: unfold d_def)
    next
      case diff: False
      with see have less: "se < ee" by simp
      define A where "A \<longleftrightarrow> (\<exists>i. lo \<le> i \<and> i < se * 32 + 32 \<and> bitAt d i)"
      define B where "B \<longleftrightarrow> (\<exists>i. se * 32 + 32 \<le> i \<and> i < hi \<and> bitAt d i)"
      have first: "d ! se AND push_bit si (push_bit (32 - si) 1 - 1) \<noteq> 0 \<longleftrightarrow> A"
      proof -
        have "d ! se AND push_bit si (push_bit (32 - si) 1 - 1) \<noteq> 0
            \<longleftrightarrow> (\<exists>k. si \<le> k \<and> k < si + (32 - si) \<and> bit (d ! se) k)"
          by (rule and_mask_range) (use si32 in simp)
        also have "\<dots> \<longleftrightarrow> (\<exists>k. si \<le> k \<and> k < 32 \<and> bit (d ! se) k)"
          using si32 by simp
        also have "\<dots> \<longleftrightarrow> (\<exists>i. se * 32 + si \<le> i \<and> i < se * 32 + 32 \<and> bitAt d i)"
          by (rule word_range_bitAt) simp
        finally show ?thesis by (simp add: lo A_def)
      qed
      have "any_rest d (se + 1) ee ei
          = Inr (Returned (\<exists>i. (se + 1) * 32 \<le> i \<and> i < ee * 32 + ei \<and> bitAt d i))"
        using less ei32 eelen eilen by (intro any_rest_correct) simp_all
      moreover have "(se + 1) * 32 = se * 32 + 32" by simp
      ultimately have rest: "any_rest d (se + 1) ee ei = Inr (Returned B)"
        by (simp only: hi B_def)
      have bound: "se * 32 + 32 \<le> hi" using less hi by simp
      have split: "(\<exists>i. lo \<le> i \<and> i < hi \<and> bitAt d i) \<longleftrightarrow> A \<or> B"
        unfolding A_def B_def by (rule ex_range_split) (use bound lo si32 in simp_all)
      have "any a lo hi = (if A then Inr (Returned True) else Inr (Returned B))"
        unfolding unfold using si diff first rest by simp
      then have "any a lo hi = Inr (Returned (A \<or> B))"
        by (cases A) simp_all
      with split show ?thesis
        by (simp only: d_def)
    qed
  qed
qed

text \<open>
  C1. For every BitArray of width BITS and all \<open>lo < hi \<le> BITS\<close>, \<open>any(lo, hi)\<close> returns
  true if and only if \<open>test(i)\<close> is true for some \<open>i\<close> with \<open>lo \<le> i < hi\<close>: the masks of the
  first and the last partial word select exactly the bits of the half-open range.
\<close>

theorem any_iff_exists_test:
  assumes "BitArray_wf a" and "lo < hi" and "hi \<le> BITS a"
  shows "any a lo hi = Inr (Returned (\<exists>i\<in>{lo..<hi}. test a i = Inr True))"
proof -
  have "hi \<le> length (mData a) * 32"
    using assms(1,3) COUNT_covers [of "BITS a"] by (simp add: BitArray_wf_def)
  with assms have "any a lo hi = Inr (Returned (\<exists>i. lo \<le> i \<and> i < hi \<and> bitAt (mData a) i))"
    by (intro any_bitAt) simp_all
  moreover have "(\<exists>i\<in>{lo..<hi}. test a i = Inr True)
      \<longleftrightarrow> (\<exists>i. lo \<le> i \<and> i < hi \<and> bitAt (mData a) i)"
    using assms(1,3) by (auto simp: test_bitAt)
  ultimately show ?thesis by simp
qed

theorem any_iff_exists_test_witness:
  "BitArray_wf \<lparr>BITS = 64, mData = [0, 0x80000000]\<rparr>
   \<and> (1 :: nat) < 64 \<and> 64 \<le> BITS \<lparr>BITS = 64, mData = [0, 0x80000000]\<rparr>
   \<and> any \<lparr>BITS = 64, mData = [0, 0x80000000]\<rparr> 1 64 = Inr (Returned True)
   \<and> test \<lparr>BITS = 64, mData = [0, 0x80000000]\<rparr> 63 = Inr True"
proof -
  define a where "a = \<lparr>BITS = 64, mData = [0, 0x80000000 :: uint32_t]\<rparr>"
  have wf: "BitArray_wf a" by (simp add: a_def BitArray_wf_def COUNT_def WIDTH_def)
  have t: "test a 63 = Inr True" by (simp add: a_def test_def at_def WIDTH_def)
  then have "\<exists>i\<in>{1..<64}. test a i = Inr True" by (intro bexI [of _ 63]) simp_all
  moreover have "any a 1 64 = Inr (Returned (\<exists>i\<in>{1..<64}. test a i = Inr True))"
    using wf by (rule any_iff_exists_test) (simp_all add: a_def)
  ultimately have "any a 1 64 = Inr (Returned True)" by simp
  with wf t show ?thesis by (simp add: a_def)
qed

section \<open>The range check of any\<close>

lemma any_last_not_invalid: "any_last d se ee ei \<noteq> Inr InvalidIndex"
  by (simp add: any_last_def Let_def split: sum.split)

lemma any_rest_not_invalid: "any_rest d se ee ei \<noteq> Inr InvalidIndex"
  by (simp add: any_rest_def any_last_not_invalid split: sum.split option.split)

text \<open>
  What the guard does as written. \<open>any\<close> takes the error branch, returning false without
  reading a word (whether it does is the same for every content and size of the array),
  exactly when \<open>startIndex \<ge> endIndex\<close>, \<open>startIndex > BITS\<close> or \<open>endIndex > BITS + 1\<close>. So
  no call with \<open>startIndex < endIndex \<le> BITS\<close> takes it; but a call whose range ends at
  \<open>BITS + 1\<close> passes as well, one index beyond the \<open>0 <= bit < BITS\<close> that the comment
  of \<open>test\<close> gives for a bit index.
\<close>

lemma any_error_branch_iff:
  "(any a startIndex endIndex = Inr InvalidIndex
      \<longleftrightarrow> (endIndex \<le> startIndex \<or> BITS a < startIndex \<or> BITS a + 1 < endIndex))
   \<and> (any (a\<lparr>mData := d\<rparr>) startIndex endIndex = Inr InvalidIndex
      \<longleftrightarrow> any a startIndex endIndex = Inr InvalidIndex)
   \<and> any_value InvalidIndex = False"
proof -
  have branch: "any b startIndex endIndex = Inr InvalidIndex
      \<longleftrightarrow> (endIndex \<le> startIndex \<or> BITS b < startIndex \<or> BITS b + 1 < endIndex)" for b
  proof (cases "endIndex \<le> startIndex \<or> BITS b < startIndex \<or> BITS b + 1 < endIndex")
    case True
    then show ?thesis by (auto simp: any_def)
  next
    case False
    then have "any b startIndex endIndex \<noteq> Inr InvalidIndex"
      by (simp add: any_def Let_def any_rest_not_invalid not_le not_less split: sum.split)
    with False show ?thesis by simp
  qed
  have "any (a\<lparr>mData := d\<rparr>) startIndex endIndex = Inr InvalidIndex
      \<longleftrightarrow> any a startIndex endIndex = Inr InvalidIndex"
    unfolding branch by simp
  with branch [of a] show ?thesis by simp
qed

text \<open>
  C2 fails on the code. With \<open>BITS = 16\<close> the call \<open>any(16, 17)\<close> has
  \<open>startIndex \<ge> BITS\<close> and \<open>endIndex > BITS\<close>, so it is out of range for the half-open
  interval over the width and should take the error branch. The guard lets it pass: the
  call reads word 0 and returns true for bit 16, which \<open>test\<close> reports as unset.
\<close>

theorem any_start_at_width_not_rejected:
  "BITS \<lparr>BITS = 16, mData = [0x10000]\<rparr> \<le> 16
   \<and> BITS \<lparr>BITS = 16, mData = [0x10000]\<rparr> < 17
   \<and> any \<lparr>BITS = 16, mData = [0x10000]\<rparr> 16 17 = Inr (Returned True)
   \<and> test \<lparr>BITS = 16, mData = [0x10000]\<rparr> 16 = Inr False"
  by (simp add: any_def any_rest_def any_last_def any_whole.simps at_def test_def WIDTH_def)

section \<open>The words any reads at the accepted boundary\<close>

text \<open>
  A call that passes the range check stays within the array whenever the width is not a
  multiple of 32: the last word then has room for bit \<open>BITS\<close>.
\<close>

lemma any_accepted_in_bounds:
  assumes "BitArray_wf a" and "BITS a mod 32 \<noteq> 0"
    and "lo < hi" and "lo \<le> BITS a" and "hi \<le> BITS a + 1"
  shows "any a lo hi = Inr (Returned (\<exists>i. lo \<le> i \<and> i < hi \<and> bitAt (mData a) i))"
proof -
  have "BITS a + 1 \<le> COUNT (BITS a) * 32"
    using assms(2) unfolding COUNT_def WIDTH_def by presburger
  with assms have "hi \<le> length (mData a) * 32" by (simp add: BitArray_wf_def)
  with assms(3-5) show ?thesis by (rule any_bitAt)
qed

text \<open>
  When the width is a multiple of 32, the accepted call \<open>any(BITS, BITS + 1)\<close> reads the
  word with index \<open>COUNT\<close>, the first one past the end of the array.
\<close>

lemma any_width_multiple_of_32:
  assumes "BitArray_wf a" and "BITS a mod 32 = 0"
  shows "any a (BITS a) (BITS a + 1) = Inl (OutOfBounds (COUNT (BITS a)))"
proof -
  define k where "k = BITS a div 32"
  have bits: "BITS a = k * 32" using assms(2) by (auto simp: k_def)
  have cnt: "COUNT (BITS a) = k" by (simp add: COUNT_def WIDTH_def bits)
  then have len: "length (mData a) = k" using assms(1) by (simp add: BitArray_wf_def)
  have idx: "BITS a div WIDTH = k" "Suc (BITS a) div WIDTH = k"
    "BITS a mod WIDTH = 0" "Suc (BITS a) mod WIDTH = 1"
    unfolding WIDTH_def bits by presburger+
  have "any_whole (mData a) k k = Inr (Some k)"
    by (subst any_whole.simps) simp
  moreover have "any_last (mData a) k k 1 = Inl (OutOfBounds k)"
    by (simp add: any_last_def at_def len)
  ultimately have "any_rest (mData a) k k 1 = Inl (OutOfBounds k)"
    by (simp add: any_rest_def)
  then show ?thesis
    by (simp add: any_def idx cnt)
qed

text \<open>
  C9 fails on the code. With \<open>BITS = 32\<close> the array has \<open>COUNT = 1\<close> word; the call
  \<open>any(32, 33)\<close> passes the range check and then reads \<open>mData[1]\<close>, one word past the end.
\<close>

theorem any_boundary_reads_past_end:
  "BitArray_wf \<lparr>BITS = 32, mData = [0]\<rparr> \<and> COUNT 32 = 1
   \<and> any \<lparr>BITS = 32, mData = [0]\<rparr> 32 33 \<noteq> Inr InvalidIndex
   \<and> any \<lparr>BITS = 32, mData = [0]\<rparr> 32 33 = Inl (OutOfBounds 1)"
  by (simp add: BitArray_wf_def COUNT_def any_def any_rest_def any_last_def any_whole.simps
      at_def WIDTH_def)

section \<open>Reading a bit at or beyond the width\<close>

text \<open>
  C3. For every BitArray and every bit index at or beyond its width, \<open>test\<close> returns
  false; it reads no word there, so the query is total.
\<close>

theorem test_beyond_width:
  "BITS a \<le> i \<Longrightarrow> test a i = Inr False"
  by (simp add: test_def)

theorem test_beyond_width_witness:
  "BITS \<lparr>BITS = 16, mData = [0x1FFFF]\<rparr> \<le> 16
   \<and> test \<lparr>BITS = 16, mData = [0x1FFFF]\<rparr> 16 = Inr False"
  using test_beyond_width [of "\<lparr>BITS = 16, mData = [0x1FFFF]\<rparr>" 16] by simp

section \<open>Synthetic event types\<close>

lemma sint_evdev_type: "sint (evdev_type t) = uint t"
proof -
  have "uint t < 2 ^ 16" using uint_bounded [of t] by simp
  then have hi: "uint t < 2 ^ 31" by simp
  have "(- (2 ^ 31) :: int) \<le> 0" by simp
  then have lo: "- (2 ^ 31) \<le> uint t" using uint_nonnegative [of t] by (rule order_trans)
  note b = lo hi
  have "sint (evdev_type t) = signed_take_bit 31 (uint t)"
    unfolding evdev_type_def by (simp add: signed_ucast_eq)
  also have "\<dots> = uint t"
    using b by (rule signed_take_bit_int_eq_self)
  finally show ?thesis .
qed

lemma evdev_type_below: "sint (evdev_type t) < 0x10000"
  using uint_bounded [of t] by (simp add: sint_evdev_type)

text \<open>
  C4. The three synthetic type codes are pairwise distinct, each is strictly greater than
  every type code a kernel event can carry, and each is stored in the \<open>int32_t\<close> type field
  of a RawEvent unchanged; so the type field tells a synthetic event from a kernel event,
  on either side of \<open>FIRST_SYNTHETIC_EVENT\<close>.
\<close>

theorem synthetic_types_distinct_above_evdev:
  "DEVICE_ADDED \<noteq> DEVICE_REMOVED \<and> DEVICE_ADDED \<noteq> FINISHED_DEVICE_SCAN
   \<and> DEVICE_REMOVED \<noteq> FINISHED_DEVICE_SCAN
   \<and> (\<forall>t. sint (evdev_type t) < DEVICE_ADDED \<and> sint (evdev_type t) < DEVICE_REMOVED
          \<and> sint (evdev_type t) < FINISHED_DEVICE_SCAN)
   \<and> (\<forall>e t. sint (ev_type (e\<lparr>ev_type := evdev_type t\<rparr>)) < FIRST_SYNTHETIC_EVENT)
   \<and> FIRST_SYNTHETIC_EVENT \<le> sint (ev_type (e\<lparr>ev_type := word_of_int DEVICE_ADDED\<rparr>))
   \<and> FIRST_SYNTHETIC_EVENT \<le> sint (ev_type (e\<lparr>ev_type := word_of_int DEVICE_REMOVED\<rparr>))
   \<and> FIRST_SYNTHETIC_EVENT \<le> sint (ev_type (e\<lparr>ev_type := word_of_int FINISHED_DEVICE_SCAN\<rparr>))
   \<and> sint (word_of_int DEVICE_ADDED :: int32_t) = DEVICE_ADDED
   \<and> sint (word_of_int DEVICE_REMOVED :: int32_t) = DEVICE_REMOVED
   \<and> sint (word_of_int FINISHED_DEVICE_SCAN :: int32_t) = FINISHED_DEVICE_SCAN"
proof -
  have "sint (evdev_type t) < 0x10000000 \<and> sint (evdev_type t) < 0x20000000
      \<and> sint (evdev_type t) < 0x30000000" for t
    using evdev_type_below [of t] by simp
  then show ?thesis
    by (simp add: DEVICE_ADDED_def DEVICE_REMOVED_def FINISHED_DEVICE_SCAN_def
        FIRST_SYNTHETIC_EVENT_def)
qed

section \<open>Clearing axis information\<close>

text \<open>
  C6. After \<open>clear()\<close> on any RawAbsoluteAxisInfo, \<open>valid\<close> is false and \<open>minValue\<close>,
  \<open>maxValue\<close>, \<open>flat\<close>, \<open>fuzz\<close> and \<open>resolution\<close> are all 0.
\<close>

theorem clear_zeroes_all_fields:
  "valid (clear info) = False \<and> minValue (clear info) = 0 \<and> maxValue (clear info) = 0
   \<and> flat (clear info) = 0 \<and> fuzz (clear info) = 0 \<and> resolution (clear info) = 0"
  by (simp add: clear_def)

section \<open>The sentinel for no built-in keyboard\<close>

text \<open>
  C7. \<open>NO_BUILT_IN_KEYBOARD\<close> is \<open>-2\<close>; it differs from the virtual keyboard id \<open>-1\<close> and
  from every real device id, all of which are at least 1, both as an integer and as the
  \<open>int32_t\<close> that \<open>mBuiltInKeyboardId\<close> holds.
\<close>

theorem no_built_in_keyboard_distinct:
  "NO_BUILT_IN_KEYBOARD = - 2 \<and> NO_BUILT_IN_KEYBOARD \<noteq> VIRTUAL_KEYBOARD_ID
   \<and> (\<forall>devId :: int32_t. 1 \<le> sint devId \<longrightarrow>
         sint devId \<noteq> NO_BUILT_IN_KEYBOARD \<and> devId \<noteq> word_of_int NO_BUILT_IN_KEYBOARD)"
proof -
  have "devId \<noteq> - 2" if "1 \<le> sint devId" for devId :: int32_t
  proof
    assume "devId = - 2"
    then have "sint devId = - 2" by simp
    with that show False by simp
  qed
  then show ?thesis by (simp add: NO_BUILT_IN_KEYBOARD_def VIRTUAL_KEYBOARD_ID_def)
qed

theorem no_built_in_keyboard_distinct_witness:
  "1 \<le> sint (1 :: int32_t) \<and> sint (1 :: int32_t) \<noteq> NO_BUILT_IN_KEYBOARD
   \<and> (1 :: int32_t) \<noteq> word_of_int NO_BUILT_IN_KEYBOARD
   \<and> NO_BUILT_IN_KEYBOARD \<noteq> VIRTUAL_KEYBOARD_ID"
proof -
  have one: "1 \<le> sint (1 :: int32_t)" by simp
  from no_built_in_keyboard_distinct
  have "1 \<le> sint (1 :: int32_t) \<longrightarrow>
      sint (1 :: int32_t) \<noteq> NO_BUILT_IN_KEYBOARD \<and> (1 :: int32_t) \<noteq> word_of_int NO_BUILT_IN_KEYBOARD"
    and "NO_BUILT_IN_KEYBOARD \<noteq> VIRTUAL_KEYBOARD_ID"
    by blast+
  with one show ?thesis by blast
qed

section \<open>Loading the array from a buffer\<close>

lemma loadFromBuffer_loop_correct:
  assumes "i \<le> n" "length buffer = n" "length d = n"
  shows "loadFromBuffer_loop i n buffer d = Inr (take i d @ drop i buffer)"
  using assms
proof (induction i n buffer d rule: loadFromBuffer_loop.induct)
  case (1 i n buffer d)
  show ?case
  proof (cases "i < n")
    case False
    with 1 show ?thesis by (subst loadFromBuffer_loop.simps) simp
  next
    case True
    with 1 have rd: "at buffer i = Inr (buffer ! i)" and wr: "i < length d"
      by (simp_all add: at_def)
    have "loadFromBuffer_loop i n buffer d = loadFromBuffer_loop (i + 1) n buffer (d[i := buffer ! i])"
      using True rd wr by (subst loadFromBuffer_loop.simps) simp
    also have "\<dots> = Inr (take (i + 1) (d[i := buffer ! i]) @ drop (i + 1) buffer)"
      using "1.IH" [OF True rd wr] True "1.prems" by simp
    also have "take (i + 1) (d[i := buffer ! i]) = take i d @ [buffer ! i]"
      using wr by (simp add: take_Suc_conv_app_nth)
    also have "(take i d @ [buffer ! i]) @ drop (i + 1) buffer = take i d @ drop i buffer"
      using True "1.prems" by (simp add: Cons_nth_drop_Suc)
    finally show ?thesis .
  qed
qed

lemma loadFromBuffer_eq:
  assumes "BitArray_wf a" "length buffer = COUNT (BITS a)"
  shows "loadFromBuffer a buffer = Inr (a\<lparr>mData := buffer\<rparr>)"
  using assms loadFromBuffer_loop_correct [of 0 "COUNT (BITS a)" buffer "mData a"]
  by (simp add: loadFromBuffer_def BitArray_wf_def)

text \<open>
  C8. For every buffer of \<open>COUNT\<close> words, \<open>loadFromBuffer\<close> succeeds, and afterwards
  \<open>test(i)\<close> is bit \<open>i mod 32\<close> of word \<open>i div 32\<close> of the buffer for every \<open>i < BITS\<close>,
  and false for every other \<open>i\<close>, whatever the buffer holds at or beyond bit \<open>BITS\<close>.
\<close>

theorem loadFromBuffer_test:
  assumes "BitArray_wf a" and "length buffer = COUNT (BITS a)"
  shows "\<exists>a'. loadFromBuffer a buffer = Inr a' \<and> BITS a' = BITS a \<and> BitArray_wf a'
           \<and> (\<forall>i. test a' i = Inr (i < BITS a \<and> bit (buffer ! (i div 32)) (i mod 32)))"
proof -
  let ?a' = "a\<lparr>mData := buffer\<rparr>"
  have wf: "BitArray_wf ?a'" using assms(2) by (simp add: BitArray_wf_def)
  have "test ?a' i = Inr (i < BITS a \<and> bit (buffer ! (i div 32)) (i mod 32))" for i
  proof (cases "i < BITS a")
    case True
    then show ?thesis using test_bitAt [OF wf, of i] by (simp add: bitAt_def)
  next
    case False
    then show ?thesis by (simp add: test_def)
  qed
  with wf loadFromBuffer_eq [OF assms] show ?thesis by simp
qed

theorem loadFromBuffer_test_witness:
  "BitArray_wf \<lparr>BITS = 40, mData = [0, 0]\<rparr>
   \<and> length [0x80000001, 0xFFFFFFFF :: uint32_t] = COUNT (BITS \<lparr>BITS = 40, mData = [0, 0]\<rparr>)
   \<and> (\<exists>a'. loadFromBuffer \<lparr>BITS = 40, mData = [0, 0]\<rparr> [0x80000001, 0xFFFFFFFF] = Inr a'
         \<and> test a' 0 = Inr True \<and> test a' 1 = Inr False \<and> test a' 31 = Inr True
         \<and> test a' 39 = Inr True \<and> test a' 40 = Inr False)"
proof -
  define a where "a = \<lparr>BITS = 40, mData = [0, 0 :: uint32_t]\<rparr>"
  define b where "b = [0x80000001, 0xFFFFFFFF :: uint32_t]"
  have wf: "BitArray_wf a" by (simp add: a_def BitArray_wf_def COUNT_def WIDTH_def)
  have len: "length b = COUNT (BITS a)" by (simp add: a_def b_def COUNT_def WIDTH_def)
  from loadFromBuffer_test [OF wf len] obtain a' where
    l: "loadFromBuffer a b = Inr a'" and
    t: "\<And>i. test a' i = Inr (i < BITS a \<and> bit (b ! (i div 32)) (i mod 32))"
    by blast
  have "test a' 0 = Inr True" "test a' 1 = Inr False" "test a' 31 = Inr True"
    "test a' 39 = Inr True" "test a' 40 = Inr False"
    by (simp_all add: t a_def b_def)
  with wf len l show ?thesis unfolding a_def b_def by blast
qed

section \<open>Device classes as single bits\<close>

lemma InputDeviceClass_value_bit: "InputDeviceClass_value c = push_bit (class_bit c) 1"
  by (cases c) simp_all

lemma class_bit_lt: "class_bit c < 32"
  by (cases c) simp_all

lemma class_bit_inj: "class_bit c = class_bit d \<Longrightarrow> c = d"
  by (cases c; cases d) simp_all

lemma bit_InputDeviceClass_value: "bit (InputDeviceClass_value c) k \<longleftrightarrow> k = class_bit c"
  using class_bit_lt [of c] by (auto simp: InputDeviceClass_value_bit bit_simps)

lemma Flags_test_iff: "Flags_test f c \<longleftrightarrow> bit f (class_bit c)"
proof
  assume "Flags_test f c"
  then have "bit (InputDeviceClass_value c AND f) (class_bit c)"
    by (simp add: Flags_test_def bit_InputDeviceClass_value)
  then show "bit f (class_bit c)" by (simp add: bit_simps)
next
  assume "bit f (class_bit c)"
  then have "bit (InputDeviceClass_value c AND f) k = bit (InputDeviceClass_value c) k" for k
    by (auto simp: bit_simps bit_InputDeviceClass_value)
  then show "Flags_test f c" unfolding Flags_test_def by (intro bit_eqI)
qed

lemma Flags_test_or: "Flags_test (Flags_or f c) d \<longleftrightarrow> d = c \<or> Flags_test f d"
  by (auto simp: Flags_test_iff Flags_or_def bit_simps bit_InputDeviceClass_value dest: class_bit_inj)

lemma bit_foldl_Flags_or:
  "bit (foldl Flags_or f cs) k \<longleftrightarrow> bit f k \<or> (\<exists>c. c \<in> set cs \<and> k = class_bit c)"
  by (induction cs arbitrary: f) (auto simp: Flags_or_def bit_simps bit_InputDeviceClass_value)

lemma Flags_test_of: "Flags_test (Flags_of cs) c \<longleftrightarrow> c \<in> set cs"
  by (auto simp: Flags_test_iff Flags_of_def bit_foldl_Flags_or dest: class_bit_inj)

lemma Flags_of_eq_iff: "Flags_of cs = Flags_of ds \<longleftrightarrow> set cs = set ds"
proof
  assume "Flags_of cs = Flags_of ds"
  then have "Flags_test (Flags_of cs) c = Flags_test (Flags_of ds) c" for c by simp
  then show "set cs = set ds" unfolding Flags_test_of by blast
next
  assume "set cs = set ds"
  then show "Flags_of cs = Flags_of ds"
    by (intro bit_eqI) (simp add: Flags_of_def bit_foldl_Flags_or)
qed

lemma InputDeviceClass_value_inj: "inj InputDeviceClass_value"
proof (rule injI)
  fix c d
  assume "InputDeviceClass_value c = InputDeviceClass_value d"
  then have "bit (InputDeviceClass_value d) (class_bit c)"
    using bit_InputDeviceClass_value [of c "class_bit c"] by simp
  then show "c = d" by (simp add: bit_InputDeviceClass_value class_bit_inj)
qed

text \<open>
  C10. Every enumerator of InputDeviceClass is a single-bit value and no two enumerators
  share their value. Hence adding a class to a flags word sets that class and changes the
  test of no other, a word built from a list of classes tests true exactly for the
  listed classes, and two such words are equal exactly when they hold the same set.
\<close>

theorem InputDeviceClass_single_bits:
  "(\<forall>c. \<exists>k<32. InputDeviceClass_value c = push_bit k 1)
   \<and> inj InputDeviceClass_value
   \<and> (\<forall>f c d. Flags_test (Flags_or f c) d \<longleftrightarrow> d = c \<or> Flags_test f d)
   \<and> (\<forall>cs c. Flags_test (Flags_of cs) c \<longleftrightarrow> c \<in> set cs)
   \<and> (\<forall>cs ds. Flags_of cs = Flags_of ds \<longleftrightarrow> set cs = set ds)"
proof -
  have "\<exists>k<32. InputDeviceClass_value c = push_bit k 1" for c
    using class_bit_lt InputDeviceClass_value_bit by blast
  then show ?thesis
    using InputDeviceClass_value_inj Flags_test_or Flags_test_of Flags_of_eq_iff by blast
qed

end
